theory Spec2Isabelle
  imports Complex_Main
begin

section \<open>The lip-sync sender (class VMCLipSync of audio_router.py)\<close>

text \<open>
  Python floats are modelled as real numbers: every statement below is about the exact
  arithmetic the code describes, rounding left aside. A dict over the five vowel keys is a
  function on \<open>vowel\<close>; every such dict in the source is built by iterating \<open>VOWELS\<close>, so
  its item order is the order of that list.
\<close>

datatype vowel = VA | VI | VU | VE | VO

definition VOWELS :: "vowel list" where
  "VOWELS = [VA, VI, VU, VE, VO]"

definition FPS :: real where
  "FPS = 30"

text \<open>The two kinds of OSC message the sender puts on the wire.\<close>

datatype osc = BlendVal vowel real | BlendApply

text \<open>
  The object: its constructor arguments, whether an OSC client exists (\<open>self.client\<close> is
  not \<open>None\<close>), the internal state, and the messages sent so far through the client.
\<close>

record vmc =
  gain :: real
  max_open :: real
  attack :: real
  release :: real
  vowel_speed :: real
  client :: bool
  envelope :: real
  vowel_phase :: real
  frame_count :: nat
  prev_shapes :: "vowel \<Rightarrow> real"
  wire :: "osc list"

definition VMCLipSync :: "real \<Rightarrow> real \<Rightarrow> real \<Rightarrow> real \<Rightarrow> real \<Rightarrow> bool \<Rightarrow> vmc" where
  "VMCLipSync g m a r vs has_osc =
     \<lparr>gain = g, max_open = m, attack = a, release = r, vowel_speed = vs,
      client = has_osc, envelope = 0, vowel_phase = 0, frame_count = 0,
      prev_shapes = (\<lambda>v. 0), wire = []\<rparr>"

text \<open>The constructor's default arguments.\<close>

definition default_vmc :: vmc where
  "default_vmc = VMCLipSync 6 (65/100) (55/100) (75/100) (35/10) True"

definition encode_frame :: "(vowel \<Rightarrow> real) \<Rightarrow> osc list" where
  "encode_frame values = map (\<lambda>v. BlendVal v (values v)) VOWELS @ [BlendApply]"

definition send_blend_shapes :: "(vowel \<Rightarrow> real) \<Rightarrow> vmc \<Rightarrow> vmc" where
  "send_blend_shapes values s =
     (if \<not> client s then s else s\<lparr>wire := wire s @ encode_frame values\<rparr>)"

text \<open>The phase offset of each vowel's sine lobe and the factor of its target weight.\<close>

fun lobe_offset :: "vowel \<Rightarrow> real" where
  "lobe_offset VA = 0"
| "lobe_offset VE = 12/10"
| "lobe_offset VI = 25/10"
| "lobe_offset VO = 38/10"
| "lobe_offset VU = 5"

fun vowel_weight :: "vowel \<Rightarrow> real" where
  "vowel_weight VA = 1"
| "vowel_weight VE = 85/100"
| "vowel_weight VI = 7/10"
| "vowel_weight VO = 9/10"
| "vowel_weight VU = 75/100"

definition raw_lobe :: "real \<Rightarrow> vowel \<Rightarrow> real" where
  "raw_lobe phase v = max 0 (sin (phase * 2 * pi + lobe_offset v))"

definition lobe_total :: "real \<Rightarrow> real" where
  "lobe_total phase =
     raw_lobe phase VA + raw_lobe phase VE + raw_lobe phase VI
       + raw_lobe phase VO + raw_lobe phase VU"

text \<open>The divisor of the normalisation: the sum of the lobes, or 1.0 when that is below 0.01.\<close>

definition lobe_divisor :: "real \<Rightarrow> real" where
  "lobe_divisor phase = (let total = lobe_total phase in if total < 1/100 then 1 else total)"

text \<open>
  \<open>rms_to_blend_shapes\<close> in its three stages. \<open>follow\<close> is the envelope follower
  (the assignment to \<open>self._envelope\<close>); \<open>shape_targets\<close> is the branch on the speaking
  threshold, giving the local \<open>envelope\<close>, the object with its phase reset or advanced,
  and \<open>target_shapes\<close>; \<open>smooth\<close> is one pass of the interpolation loop for one vowel.
\<close>

definition follow :: "real \<Rightarrow> vmc \<Rightarrow> vmc" where
  "follow rms s =
     (let target = min (max_open s) (rms * gain s)
      in if target > envelope s
         then s\<lparr>envelope := envelope s + (target - envelope s) * attack s\<rparr>
         else s\<lparr>envelope := envelope s + (target - envelope s) * (1 - release s)\<rparr>)"

definition shape_targets :: "real \<Rightarrow> vmc \<Rightarrow> real \<times> vmc \<times> (vowel \<Rightarrow> real)" where
  "shape_targets env s1 =
     (if env < 2/100
      then (0, s1\<lparr>vowel_phase := 0\<rparr>, (\<lambda>v. 0))
      else (let s2 = s1\<lparr>vowel_phase := vowel_phase s1 + vowel_speed s1 / FPS\<rparr>;
                phase = vowel_phase s2;
                total = lobe_divisor phase
            in (env, s2, (\<lambda>v. raw_lobe phase v / total * env * vowel_weight v))))"

definition smooth :: "(vowel \<Rightarrow> real) \<Rightarrow> (vowel \<Rightarrow> real) \<Rightarrow> vowel \<Rightarrow> real" where
  "smooth prev target_shapes v =
     (let shape_lerp = 35/100;
          x = prev v + (target_shapes v - prev v) * shape_lerp
      in if x < 5/1000 then 0 else x)"

definition rms_to_blend_shapes :: "real \<Rightarrow> vmc \<Rightarrow> vmc \<times> real" where
  "rms_to_blend_shapes rms s =
     (let s1 = follow rms s;
          env = max 0 (min (max_open s1) (envelope s1));
          (env', s2, target_shapes) = shape_targets env s1;
          smoothed = smooth (prev_shapes s2) target_shapes;
          s3 = send_blend_shapes smoothed (s2\<lparr>prev_shapes := smoothed\<rparr>)
      in (s3\<lparr>frame_count := frame_count s3 + 1\<rparr>, env'))"

text \<open>The loop of \<open>_fade_close\<close> over \<open>range(8)\<close>, and the function itself.\<close>

fun fade_loop :: "nat list \<Rightarrow> vmc \<Rightarrow> vmc" where
  "fade_loop [] s = s"
| "fade_loop (step # steps) s =
     (let fade = 1 - (real step + 1) / 8;
          shapes = (\<lambda>v. prev_shapes s v * fade)
      in fade_loop steps (send_blend_shapes shapes (s\<lparr>prev_shapes := shapes\<rparr>)))"

definition fade_close :: "vmc \<Rightarrow> vmc" where
  "fade_close s =
     (let s1 = fade_loop [0..<8] s;
          s2 = send_blend_shapes (\<lambda>v. 0) s1
      in s2\<lparr>prev_shapes := (\<lambda>v. 0), envelope := 0\<rparr>)"

definition close_mouth :: "vmc \<Rightarrow> vmc" where
  "close_mouth s = (send_blend_shapes (\<lambda>v. 0) s)\<lparr>prev_shapes := (\<lambda>v. 0), envelope := 0\<rparr>"

text \<open>
  Two names for the proofs: \<open>clamped\<close> is the value of the local \<open>envelope\<close> right
  after the clamp, before the threshold test; \<open>tracker_ok\<close> collects the ranges of the
  configuration and of the stored level under which the follower stays in range.
\<close>

definition clamped :: "real \<Rightarrow> vmc \<Rightarrow> real" where
  "clamped rms s = max 0 (min (max_open s) (envelope (follow rms s)))"



text \<open>
  The Envelope Tracker as the specification words it (section 4.1), for comparison with
  the code: the state is the pair of \<open>level\<close> and \<open>vowel_phase\<close>, the configuration is
  read from the object, and the result is the new pair and the openness returned.
\<close>

definition spec_update :: "vmc \<Rightarrow> real \<Rightarrow> real \<times> real \<Rightarrow> (real \<times> real) \<times> real" where
  "spec_update cfg targetLoudness st =
     (let level = fst st;
          target = min (max_open cfg) (targetLoudness * gain cfg);
          level = (if target > level then level + (target - level) * attack cfg
                   else level + (target - level) * (1 - release cfg));
          level = max 0 (min (max_open cfg) level)
      in if level < 2/100 then ((0, 0), 0) else ((level, snd st), level))"

text \<open>
  The fade-out as the specification words it (section 4.5): frame \<open>k\<close> of the fade is the
  frame before it scaled by \<open>1 - (k + 1) / 8\<close>, frame 0 being scaled from the shape frame
  the fade starts with. \<open>weights_sent\<close> reads the weights of one shape off the messages on
  the wire, in the order sent.
\<close>

fun fade_frame :: "(vowel \<Rightarrow> real) \<Rightarrow> nat \<Rightarrow> vowel \<Rightarrow> real" where
  "fade_frame prev 0 v = prev v * (1 - (0 + 1) / 8)"
| "fade_frame prev (Suc k) v = fade_frame prev k v * (1 - (real (Suc k) + 1) / 8)"

fun weights_sent :: "vowel \<Rightarrow> osc list \<Rightarrow> real list" where
  "weights_sent v [] = []"
| "weights_sent v (BlendVal v' x # ms) = (if v' = v then x # weights_sent v ms else weights_sent v ms)"
| "weights_sent v (BlendApply # ms) = weights_sent v ms"



section \<open>The device callback (audio_callback inside play_audio_with_vmc)\<close>

text \<open>
  The decoded buffer: a one-dimensional array for mono input, an array of shape (n, 2)
  after \<open>reshape((-1, 2))\<close> for two channels. \<open>len(samples)\<close> is the number of frames
  in both cases. Input with more than two channels, which the source leaves interleaved
  in one dimension, is not modelled.
\<close>

datatype samples = Mono "real list" | Stereo "(real \<times> real) list"

fun total_samples :: "samples \<Rightarrow> nat" where
  "total_samples (Mono xs) = length xs"
| "total_samples (Stereo ps) = length ps"

text \<open>
  The output block handed in by the driver has one row per frame and one column per
  channel. \<open>rows\<close> gives the buffer in that shape, \<open>zero_row\<close> a silent frame, and
  \<open>chan0\<close> what the source slices into \<open>mono_chunk\<close>: the buffer itself when it is
  one-dimensional, its column 0 otherwise.
\<close>

fun rows :: "samples \<Rightarrow> real list list" where
  "rows (Mono xs) = map (\<lambda>x. [x]) xs"
| "rows (Stereo ps) = map (\<lambda>(l, r). [l, r]) ps"

fun zero_row :: "samples \<Rightarrow> real list" where
  "zero_row (Mono xs) = [0]"
| "zero_row (Stereo ps) = [0, 0]"

fun chan0 :: "samples \<Rightarrow> real list" where
  "chan0 (Mono xs) = xs"
| "chan0 (Stereo ps) = map fst ps"

text \<open>
  \<open>float(np.sqrt(np.mean(chunk ** 2)))\<close>. The mean of an empty slice is NaN in numpy;
  \<open>None\<close> stands for it.
\<close>

definition np_rms :: "real list \<Rightarrow> real option" where
  "np_rms chunk =
     (if chunk = [] then None
      else Some (sqrt (sum_list (map (\<lambda>x. x\<^sup>2) chunk) / real (length chunk))))"

text \<open>
  The state shared between the callback and the lip-sync thread: \<open>write_pos[0]\<close>,
  \<open>current_rms[0]\<close> and the event \<open>playback_done\<close>.
\<close>

record session =
  write_pos :: nat
  current_rms :: "real option"
  playback_done :: bool

definition init_session :: session where
  "init_session = \<lparr>write_pos = 0, current_rms = Some 0, playback_done = False\<rparr>"

text \<open>
  What one invocation leaves behind for the driver: the filled output block, the number
  of frames copied from the buffer (the local \<open>actual\<close>; 0 on the path that copies
  nothing), and whether \<open>CallbackStop\<close> was raised.
\<close>

record invocation =
  outdata :: "real list list"
  copied :: nat
  stopped :: bool

definition audio_callback :: "samples \<Rightarrow> nat \<Rightarrow> session \<Rightarrow> invocation \<times> session" where
  "audio_callback smp frames s =
     (let start = write_pos s;
          end_pos = start + frames
      in if start \<ge> total_samples smp
         then (\<lparr>outdata = replicate frames (zero_row smp), copied = 0, stopped = True\<rparr>,
               s\<lparr>current_rms := Some 0, playback_done := True\<rparr>)
         else (let end_pos = (if end_pos > total_samples smp then total_samples smp else end_pos);
                   actual = end_pos - start;
                   out = take actual (drop start (rows smp))
                           @ replicate (frames - actual) (zero_row smp);
                   mono_chunk = take actual (drop start (chan0 smp));
                   s1 = s\<lparr>current_rms := np_rms mono_chunk, write_pos := end_pos\<rparr>
               in if end_pos \<ge> total_samples smp
                  then (\<lparr>outdata = out, copied = actual, stopped = True\<rparr>,
                        s1\<lparr>playback_done := True\<rparr>)
                  else (\<lparr>outdata = out, copied = actual, stopped = False\<rparr>, s1)))"

text \<open>
  The output stream: the driver invokes the callback once per block it wants, with the
  block sizes it chooses, and issues no further invocation once \<open>CallbackStop\<close> has been
  raised. The result pairs each invocation with the shared state it left.
\<close>

fun stream_run :: "samples \<Rightarrow> nat list \<Rightarrow> session \<Rightarrow> (invocation \<times> session) list \<times> session" where
  "stream_run smp [] s = ([], s)"
| "stream_run smp (frames # rest) s =
     (let (r, s1) = audio_callback smp frames s
      in if stopped r then ([(r, s1)], s1)
         else (let (calls, s2) = stream_run smp rest s1 in ((r, s1) # calls, s2)))"

section \<open>Playing one item (AudioRouter.play_audio_with_vmc)\<close>

text \<open>
  What the model keeps of the router: its lip-sync object \<open>self.vmc\<close> and the records
  written to the module's logger. The module-level flags \<open>HAS_PYDUB\<close> and
  \<open>HAS_SOUNDDEVICE\<close> are fixed when the module is imported.
\<close>

datatype level = INFO | ERROR

record router =
  vmc :: vmc
  logged :: "(level \<times> string) list"

record libs =
  has_pydub :: bool
  has_sounddevice :: bool

text \<open>
  The parts of one call that the libraries and the scheduler decide, given as data:
  whether \<open>AudioSegment.from_file\<close> returns a buffer or raises, whether
  \<open>sd.OutputStream\<close> opens or raises, the block sizes the driver asks for, and the
  amplitudes the lip-sync thread reads, one per tick, before it is overtaken (by the
  completion flag, or by the handler of the exception). The two exceptions are the errors
  a call can fail with inside its \<open>try\<close> block.
\<close>

datatype failure = DecodeFailure | DeviceUnavailable

record attempt =
  decoded :: "samples option"
  stream_opens :: bool
  blocks :: "nat list"
  readings :: "real list"

text \<open>The loop of \<open>vmc_worker\<close> over the readings it makes.\<close>

fun vmc_ticks :: "real list \<Rightarrow> vmc \<Rightarrow> vmc" where
  "vmc_ticks [] s = s"
| "vmc_ticks (rms # rest) s = vmc_ticks rest (fst (rms_to_blend_shapes rms s))"

text \<open>
  The body of the \<open>try\<close> block. Its result is \<open>None\<close> when it does not return (the stream
  is open and the completion flag is never set, so \<open>playback_done.wait()\<close> blocks),
  \<open>Inl e\<close> when it raises \<open>e\<close>, and \<open>Inr b\<close> when it returns \<open>b\<close>. The lip-sync thread is
  started before the stream is opened, so its ticks are there on both paths after the
  decoding; only the path that completes lets it run into its fade-out.
\<close>

definition try_body :: "libs \<Rightarrow> attempt \<Rightarrow> router \<Rightarrow> (router \<times> (failure + bool)) option" where
  "try_body l a r =
     (if \<not> has_pydub l \<or> \<not> has_sounddevice l
      then Some (r\<lparr>logged := logged r @ [(ERROR, ''pydub and sounddevice required'')]\<rparr>, Inr False)
      else (case decoded a of
              None \<Rightarrow> Some (r, Inl DecodeFailure)
            | Some samples \<Rightarrow>
                (let r1 = r\<lparr>logged := logged r @ [(INFO, ''Playing with real-time VMC lip sync'')]\<rparr>
                 in if \<not> stream_opens a
                    then Some (r1\<lparr>vmc := vmc_ticks (readings a) (vmc r1)\<rparr>, Inl DeviceUnavailable)
                    else if playback_done (snd (stream_run samples (blocks a) init_session))
                    then Some (r1\<lparr>vmc := fade_close (vmc_ticks (readings a) (vmc r1)),
                                   logged := logged r1 @ [(INFO, ''VMC lip sync complete''),
                                            (INFO, ''Audio playback + VMC lip sync complete'')]\<rparr>,
                               Inr True)
                    else None)))"

text \<open>The whole method: the \<open>try\<close> block and its handler for \<open>Exception\<close>.\<close>

definition play_audio_with_vmc :: "libs \<Rightarrow> attempt \<Rightarrow> router \<Rightarrow> (router \<times> bool) option" where
  "play_audio_with_vmc l a r =
     (case try_body l a r of
        None \<Rightarrow> None
      | Some (r', Inr ok) \<Rightarrow> Some (r', ok)
      | Some (r', Inl e) \<Rightarrow>
          Some (r'\<lparr>logged := logged r' @ [(ERROR, ''Audio playback failed'')],
                   vmc := close_mouth (vmc r')\<rparr>, False))"

section \<open>The playback queue and its worker (start_api_server)\<close>

text \<open>
  The server state the queue handlers and the worker share: the contents of the
  \<open>asyncio.Queue\<close>, the item the worker has taken and is playing (\<open>None\<close> while it waits
  in \<open>playback_queue.get()\<close>), the router, and a trace of when each item's playing
  started and finished.
\<close>

type_synonym bytes = "nat list"

datatype event = Started bytes | Finished bytes

record server =
  queue :: "bytes list"
  playing :: "bytes option"
  router :: router
  trace :: "event list"


text \<open>
  The steps, one per point at which the event loop can switch: a request to
  \<open>/play-bytes\<close> (an empty body is refused and queues nothing), a request to \<open>/clear\<close>,
  the worker taking the head of the queue, and the worker's call of
  \<open>play_audio_with_vmc\<close> coming back, after which the worker is at the top of its loop
  again. The worker is one coroutine, so it takes an item only when it is not playing
  one. A step that cannot happen in the state gives \<open>None\<close>; so does the worker's second
  step when the call never comes back. The worker wraps the call in a handler for
  \<open>Exception\<close> of its own, which logs and goes on to \<open>task_done\<close>; the method as modelled
  handles every error it raises itself (sending a frame is taken not to raise), so that
  handler has no case here.
\<close>

datatype op = PlayBytes bytes | Clear | WorkerGet | WorkerDone attempt

fun server_step :: "libs \<Rightarrow> op \<Rightarrow> server \<Rightarrow> server option" where
  "server_step l (PlayBytes audio_data) s =
     (if audio_data = [] then Some s else Some (s\<lparr>queue := queue s @ [audio_data]\<rparr>))"
| "server_step l Clear s = Some (s\<lparr>queue := []\<rparr>)"
| "server_step l WorkerGet s =
     (case playing s of
        Some b \<Rightarrow> None
      | None \<Rightarrow>
          (case queue s of
             [] \<Rightarrow> None
           | audio_data # rest \<Rightarrow>
               Some (s\<lparr>queue := rest, playing := Some audio_data,
                       trace := trace s @ [Started audio_data]\<rparr>)))"
| "server_step l (WorkerDone a) s =
     (case playing s of
        None \<Rightarrow> None
      | Some audio_data \<Rightarrow>
          (case play_audio_with_vmc l a (router s) of
             None \<Rightarrow> None
           | Some (r, ok) \<Rightarrow>
               Some (s\<lparr>playing := None, router := r,
                       trace := trace s @ [Finished audio_data]\<rparr>)))"

fun run :: "libs \<Rightarrow> op list \<Rightarrow> server \<Rightarrow> server option" where
  "run l [] s = Some s"
| "run l (x # xs) s = (case server_step l x s of None \<Rightarrow> None | Some s' \<Rightarrow> run l xs s')"





text \<open>The mouth is closed: no weight on any shape and no envelope left.\<close>

definition mouth_closed :: "vmc \<Rightarrow> bool" where
  "mouth_closed v \<longleftrightarrow> prev_shapes v = (\<lambda>x. 0) \<and> envelope v = 0"


section \<open>The sum of the vowel lobes\<close>

lemma pi_ge_3: "3 \<le> pi"
proof -
  have "sin (pi/6) \<le> pi/6" by (rule sin_x_le_x) simp
  then show ?thesis by (simp add: sin_30)
qed

lemma sin_cubic_lower:
  fixes x :: real
  assumes "0 < x"
  shows "x - x^3 / 6 \<le> sin x"
proof -
  from Maclaurin_sin_expansion3 [of 3 x] assms
  obtain t where t: "sin x = (\<Sum>m<3. sin_coeff m * x ^ m) + (sin (t + 1/2 * real 3 * pi) / fact 3) * x ^ 3"
    by auto
  have s: "(\<Sum>m<3. sin_coeff m * x ^ m) = x"
    by (simp add: numeral_3_eq_3 sin_coeff_def)
  have "- 1 \<le> sin (t + 1/2 * real 3 * pi)" by simp
  then have "- (x^3) \<le> sin (t + 1/2 * real 3 * pi) * x^3"
    using assms by (metis mult_minus_left mult_1 mult_right_mono zero_less_power less_imp_le)
  then have "- (x^3) / 6 \<le> (sin (t + 1/2 * real 3 * pi) / fact 3) * x ^ 3"
    by (simp add: fact_numeral numeral_3_eq_3)
  with t s show ?thesis by simp
qed

lemma sin_half_lower: "1/100 < sin (1/2 :: real)"
  using sin_cubic_lower [of "1/2"] by (simp add: power3_eq_cube)

text \<open>On the window from 1/2 to \<open>pi - 1/2\<close> the sine is at least \<open>sin (1/2)\<close>.\<close>

lemma sin_window:
  fixes z :: real
  assumes "1/2 \<le> z" "z \<le> pi - 1/2"
  shows "sin (1/2) \<le> sin z"
proof (cases "z \<le> pi/2")
  case True
  have "- (pi/2) \<le> (1/2::real)" using pi_ge_3 by simp
  then show ?thesis using assms True by (intro sin_monotone_2pi_le) auto
next
  case False
  have "- (pi/2) \<le> (1/2::real)" using pi_ge_3 by simp
  then have "sin (1/2) \<le> sin (pi - z)"
    using assms False by (intro sin_monotone_2pi_le) auto
  then show ?thesis by simp
qed

text \<open>
  The five offsets are less than half a turn apart, so whatever the angle, one of the
  shifted angles falls into that window (modulo a full turn).
\<close>

lemma lobe_cover_principal:
  fixes y :: real
  assumes "- pi < y" "y \<le> pi"
  shows "\<exists>v. sin (1/2) \<le> sin (y + lobe_offset v)"
proof -
  have p3: "3 \<le> pi" by (rule pi_ge_3)
  have p4: "pi < 4" by (rule pi_less_4)
  consider (c1) "y \<le> pi - 55/10"
    | (c2) "pi - 55/10 \<le> y" "y \<le> pi - 43/10"
    | (c3) "pi - 43/10 \<le> y" "y \<le> pi - 3"
    | (c4) "pi - 3 \<le> y" "y \<le> pi - 17/10"
    | (c5) "pi - 17/10 \<le> y" "y \<le> pi - 1/2"
    | (c6) "pi - 1/2 \<le> y"
    by linarith
  then show ?thesis
  proof cases
    case c1
    have "sin (1/2) \<le> sin (y + 5)"
      using c1 assms p3 p4 by (intro sin_window) auto
    then show ?thesis by (intro exI [of _ VU]) simp
  next
    case c2
    have "sin (1/2) \<le> sin (y + 38/10)"
      using c2 assms p3 p4 by (intro sin_window) auto
    then show ?thesis by (intro exI [of _ VO]) simp
  next
    case c3
    have "sin (1/2) \<le> sin (y + 25/10)"
      using c3 assms p3 p4 by (intro sin_window) auto
    then show ?thesis by (intro exI [of _ VI]) simp
  next
    case c4
    have "sin (1/2) \<le> sin (y + 12/10)"
      using c4 assms p3 p4 by (intro sin_window) auto
    then show ?thesis by (intro exI [of _ VE]) simp
  next
    case c5
    have "sin (1/2) \<le> sin y"
      using c5 assms p3 p4 by (intro sin_window) auto
    then show ?thesis by (intro exI [of _ VA]) simp
  next
    case c6
    have "sin (1/2) \<le> sin (y + 5 - 2 * pi)"
      using c6 assms p3 p4 by (intro sin_window) auto
    moreover have "sin (y + 5 - 2 * pi) = sin (y + 5)"
      using sin_periodic [of "y + 5 - 2 * pi"] by simp
    ultimately show ?thesis by (intro exI [of _ VU]) simp
  qed
qed

lemma lobe_cover:
  fixes x :: real
  shows "\<exists>v. sin (1/2) \<le> sin (x + lobe_offset v)"
proof -
  from sincos_principal_value [of x]
  obtain y where y: "- pi < y" "y \<le> pi" "sin y = sin x" "cos y = cos x" by blast
  from lobe_cover_principal [OF y(1,2)]
  obtain v where "sin (1/2) \<le> sin (y + lobe_offset v)" ..
  then have "sin (1/2) \<le> sin (x + lobe_offset v)"
    using y(3,4) by (simp add: sin_add)
  then show ?thesis ..
qed

lemma raw_lobe_nonneg: "0 \<le> raw_lobe phase v"
  by (simp add: raw_lobe_def)

lemma raw_lobe_le_total: "raw_lobe phase v \<le> lobe_total phase"
  using raw_lobe_nonneg [of phase VA] raw_lobe_nonneg [of phase VE]
    raw_lobe_nonneg [of phase VI] raw_lobe_nonneg [of phase VO] raw_lobe_nonneg [of phase VU]
  by (cases v) (simp_all add: lobe_total_def)

lemma lobe_total_lower: "sin (1/2) \<le> lobe_total phase"
proof -
  from lobe_cover [of "phase * 2 * pi"]
  obtain v where "sin (1/2) \<le> sin (phase * 2 * pi + lobe_offset v)" ..
  then have "sin (1/2) \<le> raw_lobe phase v" by (simp add: raw_lobe_def)
  also have "\<dots> \<le> lobe_total phase" by (rule raw_lobe_le_total)
  finally show ?thesis .
qed

text \<open>
  C10. For every value of the vowel phase the sum of the five clamped sine lobes is
  strictly greater than 0.01, so the branch that replaces the sum by 1.0 is never taken:
  the divisor of the normalisation is always the sum itself.
\<close>

theorem lobe_total_above_threshold:
  "1/100 < lobe_total phase \<and> lobe_divisor phase = lobe_total phase"
proof -
  have "1/100 < lobe_total phase"
    using sin_half_lower lobe_total_lower [of phase] by linarith
  then show ?thesis by (simp add: lobe_divisor_def Let_def)
qed

section \<open>The render session: what the callback does over a whole buffer\<close>

lemma length_rows [simp]: "length (rows smp) = total_samples smp"
  by (cases smp) simp_all

lemma length_chan0 [simp]: "length (chan0 smp) = total_samples smp"
  by (cases smp) simp_all

lemma cb_stopped:
  "stopped (fst (audio_callback smp f s)) \<longleftrightarrow> total_samples smp \<le> write_pos s + f"
  by (simp add: audio_callback_def Let_def)

lemma cb_done:
  "playback_done (snd (audio_callback smp f s)) \<longleftrightarrow>
     playback_done s \<or> total_samples smp \<le> write_pos s + f"
  by (simp add: audio_callback_def Let_def)

lemma cb_write_pos:
  "write_pos (snd (audio_callback smp f s)) =
     (if total_samples smp \<le> write_pos s then write_pos s
      else min (write_pos s + f) (total_samples smp))"
  by (simp add: audio_callback_def Let_def)

lemma cb_copied:
  "copied (fst (audio_callback smp f s)) = min (write_pos s + f) (total_samples smp) - write_pos s"
  by (simp add: audio_callback_def Let_def)

lemma cb_outdata:
  "outdata (fst (audio_callback smp f s)) =
     take (copied (fst (audio_callback smp f s))) (drop (write_pos s) (rows smp))
       @ replicate (f - copied (fst (audio_callback smp f s))) (zero_row smp)"
  by (simp add: audio_callback_def Let_def)


lemma stream_run_Cons:
  "stream_run smp (f # rest) s =
     (if total_samples smp \<le> write_pos s + f
      then ([audio_callback smp f s], snd (audio_callback smp f s))
      else (audio_callback smp f s # fst (stream_run smp rest (snd (audio_callback smp f s))),
            snd (stream_run smp rest (snd (audio_callback smp f s)))))"
  using cb_stopped [of smp f s]
  by (simp add: split_beta Let_def)

lemma stream_run_nonempty: "fl \<noteq> [] \<Longrightarrow> fst (stream_run smp fl s) \<noteq> []"
  by (cases fl) (simp_all add: stream_run_Cons del: stream_run.simps(2))

lemma cb_write_pos_go:
  "\<not> total_samples smp \<le> write_pos s + f \<Longrightarrow>
   write_pos (snd (audio_callback smp f s)) = write_pos s + f"
  by (simp add: cb_write_pos)

lemma cb_copied_go:
  "\<not> total_samples smp \<le> write_pos s + f \<Longrightarrow> copied (fst (audio_callback smp f s)) = f"
  by (simp add: cb_copied)

lemma cb_copied_stop:
  "total_samples smp \<le> write_pos s + f \<Longrightarrow>
   copied (fst (audio_callback smp f s)) = total_samples smp - write_pos s"
  by (simp add: cb_copied)

lemma stream_run_copied:
  "total_samples smp - write_pos s \<le> sum_list fl \<Longrightarrow>
   sum_list (map (\<lambda>e. copied (fst e)) (fst (stream_run smp fl s))) = total_samples smp - write_pos s"
proof (induction fl arbitrary: s)
  case Nil
  then show ?case by simp
next
  case (Cons f rest)
  show ?case
  proof (cases "total_samples smp \<le> write_pos s + f")
    case True
    then show ?thesis by (simp add: stream_run_Cons cb_copied_stop del: stream_run.simps(2))
  next
    case False
    let ?s1 = "snd (audio_callback smp f s)"
    have wp: "write_pos ?s1 = write_pos s + f" using False by (rule cb_write_pos_go)
    have "total_samples smp - write_pos ?s1 \<le> sum_list rest"
      using Cons.prems wp by simp
    then have "sum_list (map (\<lambda>e. copied (fst e)) (fst (stream_run smp rest ?s1)))
                 = total_samples smp - write_pos ?s1"
      by (rule Cons.IH)
    then show ?thesis
      using False wp by (simp add: stream_run_Cons cb_copied_go del: stream_run.simps(2))
  qed
qed

lemma stream_run_flags:
  "fl \<noteq> [] \<Longrightarrow> total_samples smp - write_pos s \<le> sum_list fl \<Longrightarrow> \<not> playback_done s \<Longrightarrow>
   map (\<lambda>e. playback_done (snd e)) (fst (stream_run smp fl s))
     = replicate (length (fst (stream_run smp fl s)) - 1) False @ [True]"
proof (induction fl arbitrary: s)
  case Nil
  then show ?case by simp
next
  case (Cons f rest)
  show ?case
  proof (cases "total_samples smp \<le> write_pos s + f")
    case True
    then show ?thesis by (simp add: stream_run_Cons cb_done del: stream_run.simps(2))
  next
    case False
    let ?s1 = "snd (audio_callback smp f s)"
    let ?calls = "fst (stream_run smp rest ?s1)"
    have wp: "write_pos ?s1 = write_pos s + f" using False by (rule cb_write_pos_go)
    have nd: "\<not> playback_done ?s1" using False Cons.prems(3) by (simp add: cb_done)
    have le: "total_samples smp - write_pos ?s1 \<le> sum_list rest"
      using Cons.prems(2) wp by simp
    have ne: "rest \<noteq> []" using False Cons.prems(2) by auto
    have IH: "map (\<lambda>e. playback_done (snd e)) ?calls = replicate (length ?calls - 1) False @ [True]"
      using ne le nd by (rule Cons.IH)
    have "?calls \<noteq> []" using ne by (rule stream_run_nonempty)
    then have len: "length ?calls = Suc (length ?calls - 1)" by (cases ?calls) simp_all
    have "map (\<lambda>e. playback_done (snd e)) (fst (stream_run smp (f # rest) s))
            = False # map (\<lambda>e. playback_done (snd e)) ?calls"
      using False nd by (simp add: stream_run_Cons del: stream_run.simps(2))
    also have "\<dots> = replicate (length ?calls) False @ [True]"
      by (subst IH, subst (2) len) simp
    finally show ?thesis
      using False by (simp add: stream_run_Cons del: stream_run.simps(2))
  qed
qed

lemma stream_run_stops:
  "fl \<noteq> [] \<Longrightarrow> total_samples smp - write_pos s \<le> sum_list fl \<Longrightarrow>
   map (\<lambda>e. stopped (fst e)) (fst (stream_run smp fl s))
     = replicate (length (fst (stream_run smp fl s)) - 1) False @ [True]"
proof (induction fl arbitrary: s)
  case Nil
  then show ?case by simp
next
  case (Cons f rest)
  show ?case
  proof (cases "total_samples smp \<le> write_pos s + f")
    case True
    then show ?thesis by (simp add: stream_run_Cons cb_stopped del: stream_run.simps(2))
  next
    case False
    let ?s1 = "snd (audio_callback smp f s)"
    let ?calls = "fst (stream_run smp rest ?s1)"
    have wp: "write_pos ?s1 = write_pos s + f" using False by (rule cb_write_pos_go)
    have le: "total_samples smp - write_pos ?s1 \<le> sum_list rest"
      using Cons.prems(2) wp by simp
    have ne: "rest \<noteq> []" using False Cons.prems(2) by auto
    have IH: "map (\<lambda>e. stopped (fst e)) ?calls = replicate (length ?calls - 1) False @ [True]"
      using ne le by (rule Cons.IH)
    have "?calls \<noteq> []" using ne by (rule stream_run_nonempty)
    then have len: "length ?calls = Suc (length ?calls - 1)" by (cases ?calls) simp_all
    have "map (\<lambda>e. stopped (fst e)) (fst (stream_run smp (f # rest) s))
            = False # map (\<lambda>e. stopped (fst e)) ?calls"
      using False by (simp add: stream_run_Cons cb_stopped del: stream_run.simps(2))
    also have "\<dots> = replicate (length ?calls) False @ [True]"
      by (subst IH, subst (2) len) simp
    finally show ?thesis
      using False by (simp add: stream_run_Cons del: stream_run.simps(2))
  qed
qed

lemma stream_run_outdata:
  "total_samples smp - write_pos s \<le> sum_list fl \<Longrightarrow>
   concat (map (\<lambda>e. outdata (fst e)) (fst (stream_run smp fl s)))
     = drop (write_pos s) (rows smp)
         @ replicate (sum_list (take (length (fst (stream_run smp fl s))) fl)
                        - (total_samples smp - write_pos s)) (zero_row smp)"
proof (induction fl arbitrary: s)
  case Nil
  then show ?case by simp
next
  case (Cons f rest)
  show ?case
  proof (cases "total_samples smp \<le> write_pos s + f")
    case True
    then show ?thesis
      by (simp add: stream_run_Cons cb_outdata cb_copied_stop del: stream_run.simps(2))
  next
    case False
    let ?s1 = "snd (audio_callback smp f s)"
    let ?calls = "fst (stream_run smp rest ?s1)"
    have wp: "write_pos ?s1 = write_pos s + f" using False by (rule cb_write_pos_go)
    have le: "total_samples smp - write_pos ?s1 \<le> sum_list rest"
      using Cons.prems wp by simp
    have IH: "concat (map (\<lambda>e. outdata (fst e)) ?calls)
               = drop (write_pos s + f) (rows smp)
                   @ replicate (sum_list (take (length ?calls) rest)
                                  - (total_samples smp - (write_pos s + f))) (zero_row smp)"
      using Cons.IH [OF le] wp by simp
    have split: "take f (drop (write_pos s) (rows smp)) @ drop (write_pos s + f) (rows smp)
                   = drop (write_pos s) (rows smp)"
      by (metis add.commute append_take_drop_id drop_drop)
    have cnt: "f + sum_list (take (length ?calls) rest) - (total_samples smp - write_pos s)
                = sum_list (take (length ?calls) rest) - (total_samples smp - (write_pos s + f))"
      using False by simp
    show ?thesis
      using False
      by (simp add: stream_run_Cons cb_outdata cb_copied_go IH split cnt
               del: stream_run.simps(2) flip: append_assoc)
  qed
qed

lemma stream_run_last:
  "fl \<noteq> [] \<Longrightarrow> snd (stream_run smp fl s) = snd (last (fst (stream_run smp fl s)))"
proof (induction fl arbitrary: s)
  case Nil
  then show ?case by simp
next
  case (Cons f rest)
  show ?case
  proof (cases "rest = []")
    case True
    then show ?thesis by (simp add: stream_run_Cons del: stream_run.simps(2))
  next
    case False
    then show ?thesis
      using Cons.IH [OF False] stream_run_nonempty [OF False]
      by (simp add: stream_run_Cons del: stream_run.simps(2))
  qed
qed

lemma stream_run_final:
  "fl \<noteq> [] \<Longrightarrow> total_samples smp - write_pos s \<le> sum_list fl \<Longrightarrow>
   write_pos s \<le> total_samples smp \<Longrightarrow>
   playback_done (snd (stream_run smp fl s)) \<and>
   write_pos (snd (stream_run smp fl s)) = total_samples smp"
proof (induction fl arbitrary: s)
  case Nil
  then show ?case by simp
next
  case (Cons f rest)
  show ?case
  proof (cases "total_samples smp \<le> write_pos s + f")
    case True
    then show ?thesis
      using Cons.prems(3) by (simp add: stream_run_Cons cb_done cb_write_pos del: stream_run.simps(2))
  next
    case False
    let ?s1 = "snd (audio_callback smp f s)"
    have wp: "write_pos ?s1 = write_pos s + f" using False by (rule cb_write_pos_go)
    have le: "total_samples smp - write_pos ?s1 \<le> sum_list rest"
      using Cons.prems(2) wp by simp
    have ne: "rest \<noteq> []" using False Cons.prems(2) by auto
    have "write_pos ?s1 \<le> total_samples smp" using False wp by simp
    with ne le show ?thesis
      using False by (simp add: stream_run_Cons Cons.IH del: stream_run.simps(2))
  qed
qed

lemma stream_run_done_iff:
  "write_pos s \<le> total_samples smp \<Longrightarrow> \<not> playback_done s \<Longrightarrow>
   e \<in> set (fst (stream_run smp fl s)) \<Longrightarrow>
   playback_done (snd e) \<longleftrightarrow> write_pos (snd e) = total_samples smp"
proof (induction fl arbitrary: s)
  case Nil
  then show ?case by simp
next
  case (Cons f rest)
  show ?case
  proof (cases "total_samples smp \<le> write_pos s + f")
    case True
    then show ?thesis
      using Cons.prems by (simp add: stream_run_Cons cb_done cb_write_pos del: stream_run.simps(2))
  next
    case False
    let ?s1 = "snd (audio_callback smp f s)"
    have wp: "write_pos ?s1 = write_pos s + f" using False by (rule cb_write_pos_go)
    have nd: "\<not> playback_done ?s1" using False Cons.prems(2) by (simp add: cb_done)
    have le: "write_pos ?s1 \<le> total_samples smp" using False wp by simp
    from Cons.prems(3) False
    consider "e = audio_callback smp f s" | "e \<in> set (fst (stream_run smp rest ?s1))"
      by (auto simp add: stream_run_Cons simp del: stream_run.simps(2))
    then show ?thesis
    proof cases
      case 1
      then show ?thesis using nd wp False by simp
    next
      case 2
      with le nd show ?thesis by (rule Cons.IH)
    qed
  qed
qed

lemma stream_run_append:
  "fl \<noteq> [] \<Longrightarrow> total_samples smp - write_pos s \<le> sum_list fl \<Longrightarrow>
   stream_run smp (fl @ extra) s = stream_run smp fl s"
proof (induction fl arbitrary: s)
  case Nil
  then show ?case by simp
next
  case (Cons f rest)
  show ?case
  proof (cases "total_samples smp \<le> write_pos s + f")
    case True
    then show ?thesis by (simp add: stream_run_Cons del: stream_run.simps(2))
  next
    case False
    let ?s1 = "snd (audio_callback smp f s)"
    have wp: "write_pos ?s1 = write_pos s + f" using False by (rule cb_write_pos_go)
    have le: "total_samples smp - write_pos ?s1 \<le> sum_list rest"
      using Cons.prems(2) wp by simp
    have ne: "rest \<noteq> []" using False Cons.prems(2) by auto
    show ?thesis
      using False Cons.IH [OF ne le] by (simp add: stream_run_Cons del: stream_run.simps(2))
  qed
qed

lemma cb_after_done:
  "total_samples smp \<le> write_pos s \<Longrightarrow> playback_done s \<Longrightarrow>
   audio_callback smp f s =
     (\<lparr>outdata = replicate f (zero_row smp), copied = 0, stopped = True\<rparr>,
      s\<lparr>current_rms := Some 0\<rparr>)"
  by (simp add: audio_callback_def Let_def)

text \<open>
  C1. A buffer of N frames is played through the stream, the driver asking for blocks of
  any sizes that add up to at least N. Over the invocations made, the numbers of frames
  copied add up to exactly N; the blocks written are the buffer followed by silent frames
  only; the completion flag is false after every invocation but the last and true after
  the last, which is the one that brings the cursor to N; that invocation raises
  CallbackStop, and whatever further blocks the driver would have asked for, none is
  served. Signalling completion again changes nothing: an invocation in the final state
  copies nothing, writes silence, stops again and leaves the flag and the cursor as they
  are.
\<close>

theorem render_session_complete:
  assumes "fl \<noteq> []" and "total_samples smp \<le> sum_list fl"
  shows "let calls = fst (stream_run smp fl init_session);
             s = snd (stream_run smp fl init_session)
         in sum_list (map (\<lambda>e. copied (fst e)) calls) = total_samples smp
          \<and> concat (map (\<lambda>e. outdata (fst e)) calls)
              = rows smp @ replicate (sum_list (take (length calls) fl) - total_samples smp)
                             (zero_row smp)
          \<and> map (\<lambda>e. playback_done (snd e)) calls = replicate (length calls - 1) False @ [True]
          \<and> (\<forall>e \<in> set calls. playback_done (snd e) \<longleftrightarrow> write_pos (snd e) = total_samples smp)
          \<and> map (\<lambda>e. stopped (fst e)) calls = replicate (length calls - 1) False @ [True]
          \<and> (\<forall>extra. stream_run smp (fl @ extra) init_session = stream_run smp fl init_session)
          \<and> playback_done s \<and> write_pos s = total_samples smp
          \<and> (\<forall>f. audio_callback smp f s =
                   (\<lparr>outdata = replicate f (zero_row smp), copied = 0, stopped = True\<rparr>,
                    s\<lparr>current_rms := Some 0\<rparr>))"
proof -
  let ?calls = "fst (stream_run smp fl init_session)"
  let ?s = "snd (stream_run smp fl init_session)"
  have le: "total_samples smp - write_pos init_session \<le> sum_list fl"
    using assms(2) by simp
  have p0: "write_pos init_session \<le> total_samples smp" "\<not> playback_done init_session"
    by (simp_all add: init_session_def)
  have w0: "write_pos init_session = 0" by (simp add: init_session_def)
  have c1: "sum_list (map (\<lambda>e. copied (fst e)) ?calls) = total_samples smp"
    using stream_run_copied [OF le] w0 by simp
  have c2: "concat (map (\<lambda>e. outdata (fst e)) ?calls)
              = rows smp @ replicate (sum_list (take (length ?calls) fl) - total_samples smp)
                             (zero_row smp)"
    using stream_run_outdata [OF le] w0 by simp
  have c3: "map (\<lambda>e. playback_done (snd e)) ?calls = replicate (length ?calls - 1) False @ [True]"
    using assms(1) le p0(2) by (rule stream_run_flags)
  have c4: "\<forall>e \<in> set ?calls. playback_done (snd e) \<longleftrightarrow> write_pos (snd e) = total_samples smp"
    using stream_run_done_iff [OF p0] by blast
  have c5: "map (\<lambda>e. stopped (fst e)) ?calls = replicate (length ?calls - 1) False @ [True]"
    using assms(1) le by (rule stream_run_stops)
  have c6: "\<forall>extra. stream_run smp (fl @ extra) init_session = stream_run smp fl init_session"
    using stream_run_append [OF assms(1) le] by blast
  have c7: "playback_done ?s \<and> write_pos ?s = total_samples smp"
    using assms(1) le p0(1) by (rule stream_run_final)
  have c8: "\<forall>f. audio_callback smp f ?s =
                   (\<lparr>outdata = replicate f (zero_row smp), copied = 0, stopped = True\<rparr>,
                    ?s\<lparr>current_rms := Some 0\<rparr>)"
    using c7 by (simp add: cb_after_done)
  from c1 c2 c3 c4 c5 c6 c7 c8 show ?thesis
    unfolding Let_def by blast
qed

theorem render_session_complete_witness:
  "[2, 2, 2] \<noteq> ([]::nat list) \<and> total_samples (Mono [1/2, - 1/2, 1/4]) \<le> sum_list [2, 2, 2]
   \<and> map (\<lambda>e. copied (fst e)) (fst (stream_run (Mono [1/2, - 1/2, 1/4]) [2, 2, 2] init_session))
       = [2, 1]
   \<and> concat (map (\<lambda>e. outdata (fst e))
               (fst (stream_run (Mono [1/2, - 1/2, 1/4]) [2, 2, 2] init_session)))
       = [[1/2], [- 1/2], [1/4], [0]]
   \<and> map (\<lambda>e. playback_done (snd e))
         (fst (stream_run (Mono [1/2, - 1/2, 1/4]) [2, 2, 2] init_session)) = [False, True]"
  using render_session_complete [of "[2, 2, 2]" "Mono [1/2, - 1/2, 1/4]"]
  by (simp add: audio_callback_def init_session_def Let_def)









section \<open>The envelope follower and the shapes of one tick\<close>

lemma follow_fields [simp]:
  "gain (follow rms s) = gain s"
  "max_open (follow rms s) = max_open s"
  "attack (follow rms s) = attack s"
  "release (follow rms s) = release s"
  "vowel_speed (follow rms s) = vowel_speed s"
  "client (follow rms s) = client s"
  "vowel_phase (follow rms s) = vowel_phase s"
  "prev_shapes (follow rms s) = prev_shapes s"
  "wire (follow rms s) = wire s"
  "frame_count (follow rms s) = frame_count s"
  by (simp_all add: follow_def Let_def)

lemma shape_targets_fields [simp]:
  "gain (fst (snd (shape_targets env s))) = gain s"
  "max_open (fst (snd (shape_targets env s))) = max_open s"
  "attack (fst (snd (shape_targets env s))) = attack s"
  "release (fst (snd (shape_targets env s))) = release s"
  "vowel_speed (fst (snd (shape_targets env s))) = vowel_speed s"
  "client (fst (snd (shape_targets env s))) = client s"
  "envelope (fst (snd (shape_targets env s))) = envelope s"
  "prev_shapes (fst (snd (shape_targets env s))) = prev_shapes s"
  "wire (fst (snd (shape_targets env s))) = wire s"
  "frame_count (fst (snd (shape_targets env s))) = frame_count s"
  by (simp_all add: shape_targets_def Let_def)

lemma shape_targets_env:
  "fst (shape_targets env s) = (if env < 2/100 then 0 else env)"
  by (simp add: shape_targets_def Let_def)

lemma shape_targets_phase:
  "vowel_phase (fst (snd (shape_targets env s))) =
     (if env < 2/100 then 0 else vowel_phase s + vowel_speed s / FPS)"
  by (simp add: shape_targets_def Let_def)

lemma shape_targets_gated:
  "env < 2/100 \<Longrightarrow> snd (snd (shape_targets env s)) = (\<lambda>v. 0)"
  by (simp add: shape_targets_def)

lemma send_fields [simp]:
  "gain (send_blend_shapes f s) = gain s"
  "max_open (send_blend_shapes f s) = max_open s"
  "attack (send_blend_shapes f s) = attack s"
  "release (send_blend_shapes f s) = release s"
  "vowel_speed (send_blend_shapes f s) = vowel_speed s"
  "client (send_blend_shapes f s) = client s"
  "envelope (send_blend_shapes f s) = envelope s"
  "vowel_phase (send_blend_shapes f s) = vowel_phase s"
  "prev_shapes (send_blend_shapes f s) = prev_shapes s"
  "frame_count (send_blend_shapes f s) = frame_count s"
  by (simp_all add: send_blend_shapes_def)

lemma send_wire:
  "wire (send_blend_shapes f s) = (if client s then wire s @ encode_frame f else wire s)"
  by (simp add: send_blend_shapes_def)

lemma rms_envelope: "envelope (fst (rms_to_blend_shapes rms s)) = envelope (follow rms s)"
  by (simp add: rms_to_blend_shapes_def Let_def split_beta)

lemma rms_returned:
  "snd (rms_to_blend_shapes rms s) = (if clamped rms s < 2/100 then 0 else clamped rms s)"
  by (simp add: rms_to_blend_shapes_def clamped_def Let_def split_beta shape_targets_env)

lemma rms_vowel_phase:
  "vowel_phase (fst (rms_to_blend_shapes rms s)) =
     (if clamped rms s < 2/100 then 0 else vowel_phase s + vowel_speed s / FPS)"
  by (simp add: rms_to_blend_shapes_def clamped_def Let_def split_beta shape_targets_phase)

lemma rms_config:
  "gain (fst (rms_to_blend_shapes rms s)) = gain s"
  "max_open (fst (rms_to_blend_shapes rms s)) = max_open s"
  "attack (fst (rms_to_blend_shapes rms s)) = attack s"
  "release (fst (rms_to_blend_shapes rms s)) = release s"
  "vowel_speed (fst (rms_to_blend_shapes rms s)) = vowel_speed s"
  "client (fst (rms_to_blend_shapes rms s)) = client s"
  by (simp_all add: rms_to_blend_shapes_def Let_def split_beta)

lemma rms_prev_shapes:
  "prev_shapes (fst (rms_to_blend_shapes rms s)) =
     smooth (prev_shapes s) (snd (snd (shape_targets (clamped rms s) (follow rms s))))"
  by (simp add: rms_to_blend_shapes_def clamped_def Let_def split_beta)

lemma rms_wire:
  "wire (fst (rms_to_blend_shapes rms s)) =
     (if client s then wire s @ encode_frame (prev_shapes (fst (rms_to_blend_shapes rms s)))
      else wire s)"
  by (simp add: rms_to_blend_shapes_def Let_def split_beta send_wire)

lemma smooth_zero_target:
  "smooth prev (\<lambda>v. 0) = (\<lambda>v. if prev v * (65/100) < 5/1000 then 0 else prev v * (65/100))"
  by (simp add: smooth_def Let_def fun_eq_iff algebra_simps)


lemma follow_envelope:
  "envelope (follow rms s) =
     envelope s + (min (max_open s) (rms * gain s) - envelope s)
                    * (if min (max_open s) (rms * gain s) > envelope s
                       then attack s else 1 - release s)"
  by (simp add: follow_def Let_def)








lemma spec_update_clamped:
  "spec_update s rms (envelope s, vowel_phase s)
     = (if clamped rms s < 2/100 then ((0, 0), 0)
        else ((clamped rms s, vowel_phase s), clamped rms s))"
proof -
  have "max 0 (min (max_open s)
          (if min (max_open s) (rms * gain s) > envelope s
           then envelope s + (min (max_open s) (rms * gain s) - envelope s) * attack s
           else envelope s + (min (max_open s) (rms * gain s) - envelope s) * (1 - release s)))
        = clamped rms s"
    unfolding clamped_def follow_envelope
    by (rule arg_cong [where f = "\<lambda>x. max 0 (min (max_open s) x)"])
       (rule if_distrib [symmetric,
          where f = "\<lambda>k. envelope s + (min (max_open s) (rms * gain s) - envelope s) * k"])
  then show ?thesis
    unfolding spec_update_def Let_def fst_conv snd_conv by (rule ssubst) (rule refl)
qed

text \<open>
  C3 (as amended). For every call, the tracker computes
  \<open>target = min(max_open, rms * gain)\<close> and moves the stored level by
  \<open>(target - level) * attack\<close> when \<open>target > level\<close> and by
  \<open>(target - level) * (1 - release)\<close> otherwise; the stored level is kept as it is,
  neither clamped nor zeroed. The openness the call returns is the stored level clamped
  to [0, \<open>max_open\<close>] and replaced by 0 when that is below 0.02, and whenever the
  returned openness is 0 the vowel phase is reset to 0. The returned openness and the phase
  reset are those of the specification's update applied to the same stored level.
\<close>

theorem envelope_update_refines_spec:
  "envelope (fst (rms_to_blend_shapes rms s))
     = envelope s + (min (max_open s) (rms * gain s) - envelope s)
                      * (if min (max_open s) (rms * gain s) > envelope s
                         then attack s else 1 - release s)
   \<and> snd (rms_to_blend_shapes rms s)
       = (if max 0 (min (max_open s) (envelope (fst (rms_to_blend_shapes rms s)))) < 2/100 then 0
          else max 0 (min (max_open s) (envelope (fst (rms_to_blend_shapes rms s)))))
   \<and> (snd (rms_to_blend_shapes rms s) = 0 \<longrightarrow> vowel_phase (fst (rms_to_blend_shapes rms s)) = 0)
   \<and> snd (rms_to_blend_shapes rms s) = snd (spec_update s rms (envelope s, vowel_phase s))
   \<and> fst (fst (spec_update s rms (envelope s, vowel_phase s))) = snd (rms_to_blend_shapes rms s)
   \<and> (snd (rms_to_blend_shapes rms s) = 0 \<longrightarrow>
        snd (fst (spec_update s rms (envelope s, vowel_phase s))) = 0)"
proof -
  have c1: "envelope (fst (rms_to_blend_shapes rms s))
     = envelope s + (min (max_open s) (rms * gain s) - envelope s)
                      * (if min (max_open s) (rms * gain s) > envelope s
                         then attack s else 1 - release s)"
    by (simp only: rms_envelope follow_envelope)
  have cl: "clamped rms s = max 0 (min (max_open s) (envelope (fst (rms_to_blend_shapes rms s))))"
    by (simp only: clamped_def rms_envelope)
  have c2: "snd (rms_to_blend_shapes rms s)
       = (if max 0 (min (max_open s) (envelope (fst (rms_to_blend_shapes rms s)))) < 2/100 then 0
          else max 0 (min (max_open s) (envelope (fst (rms_to_blend_shapes rms s)))))"
    by (simp only: rms_returned cl)
  have gate: "clamped rms s < 2/100" if "snd (rms_to_blend_shapes rms s) = 0"
    using that by (simp add: rms_returned split: if_splits)
  have c3: "snd (rms_to_blend_shapes rms s) = 0 \<longrightarrow> vowel_phase (fst (rms_to_blend_shapes rms s)) = 0"
    using gate by (simp add: rms_vowel_phase)
  have sp: "spec_update s rms (envelope s, vowel_phase s)
              = (if clamped rms s < 2/100 then ((0, 0), 0)
                 else ((clamped rms s, vowel_phase s), clamped rms s))"
    by (rule spec_update_clamped)
  have c4: "snd (rms_to_blend_shapes rms s) = snd (spec_update s rms (envelope s, vowel_phase s))"
    by (simp add: sp rms_returned)
  have c5: "fst (fst (spec_update s rms (envelope s, vowel_phase s))) = snd (rms_to_blend_shapes rms s)"
    by (simp add: sp rms_returned)
  have c6: "snd (rms_to_blend_shapes rms s) = 0 \<longrightarrow>
        snd (fst (spec_update s rms (envelope s, vowel_phase s))) = 0"
    using gate by (simp add: sp)
  from c1 c2 c3 c4 c5 c6 show ?thesis by blast
qed

lemma default_fields:
  "envelope default_vmc = 0" "vowel_phase default_vmc = 0" "max_open default_vmc = 65/100"
  "gain default_vmc = 6" "attack default_vmc = 55/100" "release default_vmc = 75/100"
  "vowel_speed default_vmc = 35/10" "client default_vmc" "wire default_vmc = []"
  "prev_shapes default_vmc = (\<lambda>v. 0)" "frame_count default_vmc = 0"
  by (simp_all add: default_vmc_def VMCLipSync_def)

text \<open>
  A call below the speaking threshold: loudness 0.005 on the fresh default object.
\<close>

theorem envelope_update_refines_spec_witness:
  "snd (rms_to_blend_shapes (1/200) default_vmc) = 0
   \<and> vowel_phase (fst (rms_to_blend_shapes (1/200) default_vmc)) = 0
   \<and> envelope (fst (rms_to_blend_shapes (1/200) default_vmc)) = 33/2000
   \<and> spec_update default_vmc (1/200) (envelope default_vmc, vowel_phase default_vmc) = ((0, 0), 0)"
proof -
  note T = envelope_update_refines_spec [of "1/200" default_vmc]
  from T have e: "envelope (fst (rms_to_blend_shapes (1/200) default_vmc)) = 33/2000"
    by (simp add: default_fields)
  from T e have r: "snd (rms_to_blend_shapes (1/200) default_vmc) = 0"
    by (simp add: default_fields)
  from T r have ph: "vowel_phase (fst (rms_to_blend_shapes (1/200) default_vmc)) = 0"
    by simp
  from T r have "snd (spec_update default_vmc (1/200)
                        (envelope default_vmc, vowel_phase default_vmc)) = 0"
    and "fst (fst (spec_update default_vmc (1/200)
                        (envelope default_vmc, vowel_phase default_vmc))) = 0"
    and "snd (fst (spec_update default_vmc (1/200)
                        (envelope default_vmc, vowel_phase default_vmc))) = 0"
    by simp_all
  then have sp: "spec_update default_vmc (1/200) (envelope default_vmc, vowel_phase default_vmc)
                   = ((0, 0), 0)"
    by (simp add: prod_eq_iff)
  from e r ph sp show ?thesis by simp
qed

text \<open>
  C3 as stated says that a level below 0.02 is forced to 0. The code returns 0 but keeps
  0.0165 as its level, where the specification's update keeps 0; a second call with the
  same loudness then returns 0.023925 from the code and 0 from the specification's update.
\<close>

theorem envelope_level_not_forced_counterexample:
  "snd (rms_to_blend_shapes (1/200) default_vmc) = 0
   \<and> envelope (fst (rms_to_blend_shapes (1/200) default_vmc)) = 33/2000
   \<and> fst (fst (spec_update default_vmc (1/200) (envelope default_vmc, vowel_phase default_vmc))) = 0
   \<and> snd (rms_to_blend_shapes (1/200) (fst (rms_to_blend_shapes (1/200) default_vmc)))
        = 957/40000
   \<and> snd (spec_update default_vmc (1/200)
             (fst (spec_update default_vmc (1/200)
                    (envelope default_vmc, vowel_phase default_vmc)))) = 0"
proof -
  note e0 = default_fields
  have cl1: "clamped (1/200) default_vmc = 33/2000"
    by (simp add: clamped_def follow_envelope e0)
  have e1: "envelope (fst (rms_to_blend_shapes (1/200) default_vmc)) = 33/2000"
    by (simp add: rms_envelope follow_envelope e0)
  have r1: "snd (rms_to_blend_shapes (1/200) default_vmc) = 0"
    by (simp add: rms_returned clamped_def follow_envelope e0)
  have sp1: "spec_update default_vmc (1/200) (envelope default_vmc, vowel_phase default_vmc)
               = ((0, 0), 0)"
    using spec_update_clamped [of default_vmc "1/200"] by (simp add: cl1)
  have r2: "snd (rms_to_blend_shapes (1/200) (fst (rms_to_blend_shapes (1/200) default_vmc)))
              = 957/40000"
    by (simp add: rms_returned clamped_def follow_envelope rms_config e1 e0)
  have sp2: "snd (spec_update default_vmc (1/200) (0, 0)) = 0"
    using sp1 by (simp add: e0)
  from e1 r1 sp1 r2 sp2 show ?thesis by simp
qed

text \<open>
  C5 (as amended). Whenever the openness of a tick is 0, the vowel phase is reset to 0,
  and the frame stored and handed to the sender is the previous frame scaled by 0.65,
  with every weight that falls below 0.005 set to 0; it is the all-zero frame when every
  previous weight is below 1/130.
\<close>

theorem silent_tick_frame:
  assumes "snd (rms_to_blend_shapes rms s) = 0"
  shows "vowel_phase (fst (rms_to_blend_shapes rms s)) = 0
         \<and> prev_shapes (fst (rms_to_blend_shapes rms s))
             = (\<lambda>v. if prev_shapes s v * (65/100) < 5/1000 then 0
                    else prev_shapes s v * (65/100))
         \<and> wire (fst (rms_to_blend_shapes rms s))
             = (if client s
                then wire s @ encode_frame (prev_shapes (fst (rms_to_blend_shapes rms s)))
                else wire s)
         \<and> ((\<forall>v. prev_shapes s v < 1/130) \<longrightarrow>
               prev_shapes (fst (rms_to_blend_shapes rms s)) = (\<lambda>v. 0))"
proof -
  have gate: "clamped rms s < 2/100"
    using assms by (simp add: rms_returned split: if_splits)
  have c1: "vowel_phase (fst (rms_to_blend_shapes rms s)) = 0"
    using gate by (simp add: rms_vowel_phase)
  have c2: "prev_shapes (fst (rms_to_blend_shapes rms s))
             = (\<lambda>v. if prev_shapes s v * (65/100) < 5/1000 then 0
                    else prev_shapes s v * (65/100))"
    using gate by (simp only: rms_prev_shapes shape_targets_gated smooth_zero_target)
  have c3: "wire (fst (rms_to_blend_shapes rms s))
             = (if client s
                then wire s @ encode_frame (prev_shapes (fst (rms_to_blend_shapes rms s)))
                else wire s)"
    by (rule rms_wire)
  have c4: "prev_shapes (fst (rms_to_blend_shapes rms s)) = (\<lambda>v. 0)"
    if "\<forall>v. prev_shapes s v < 1/130"
  proof
    fix v
    from that have "prev_shapes s v < 1/130" ..
    then have "prev_shapes s v * (65/100) < 5/1000" by simp
    then show "prev_shapes (fst (rms_to_blend_shapes rms s)) v = 0" by (simp add: c2)
  qed
  from c1 c2 c3 c4 show ?thesis by blast
qed

text \<open>
  A silent tick on the fresh default object sends the all-zero frame.
\<close>

theorem silent_tick_frame_witness:
  "snd (rms_to_blend_shapes 0 default_vmc) = 0
   \<and> vowel_phase (fst (rms_to_blend_shapes 0 default_vmc)) = 0
   \<and> prev_shapes (fst (rms_to_blend_shapes 0 default_vmc)) VA = 0
   \<and> wire (fst (rms_to_blend_shapes 0 default_vmc))
       = [BlendVal VA 0, BlendVal VI 0, BlendVal VU 0, BlendVal VE 0, BlendVal VO 0, BlendApply]"
proof -
  have r: "snd (rms_to_blend_shapes 0 default_vmc) = 0"
    by (simp add: rms_returned clamped_def follow_envelope default_fields)
  from silent_tick_frame [OF r] r show ?thesis
    by (simp add: default_fields encode_frame_def VOWELS_def)
qed

text \<open>
  C5 as stated claims the all-zero frame for every previous frame. With weight 0.1 on
  shape A before a silent tick, the openness returned is 0 and the frame sent carries
  0.065 on A.
\<close>

theorem silent_tick_nonzero_frame_counterexample:
  "snd (rms_to_blend_shapes 0
          (default_vmc\<lparr>prev_shapes := (prev_shapes default_vmc)(VA := 1/10)\<rparr>)) = 0
   \<and> prev_shapes (fst (rms_to_blend_shapes 0
          (default_vmc\<lparr>prev_shapes := (prev_shapes default_vmc)(VA := 1/10)\<rparr>))) VA = 13/200
   \<and> wire (fst (rms_to_blend_shapes 0
          (default_vmc\<lparr>prev_shapes := (prev_shapes default_vmc)(VA := 1/10)\<rparr>)))
       = [BlendVal VA (13/200), BlendVal VI 0, BlendVal VU 0, BlendVal VE 0, BlendVal VO 0,
          BlendApply]"
proof -
  let ?s = "default_vmc\<lparr>prev_shapes := (prev_shapes default_vmc)(VA := 1/10)\<rparr>"
  have cl: "clamped 0 ?s = 0"
    by (simp add: clamped_def follow_envelope default_fields)
  have r: "snd (rms_to_blend_shapes 0 ?s) = 0"
    by (simp add: rms_returned cl)
  have p: "prev_shapes (fst (rms_to_blend_shapes 0 ?s))
             = (\<lambda>v. if prev_shapes ?s v * (65/100) < 5/1000 then 0
                    else prev_shapes ?s v * (65/100))"
    by (simp only: rms_prev_shapes cl shape_targets_gated smooth_zero_target)
  have w: "wire (fst (rms_to_blend_shapes 0 ?s))
             = encode_frame (prev_shapes (fst (rms_to_blend_shapes 0 ?s)))"
    by (simp add: rms_wire default_fields)
  show ?thesis
    unfolding w p using r
    by (simp add: encode_frame_def VOWELS_def default_fields)
qed

section \<open>The fade-out\<close>

lemma fade_loop_fields [simp]:
  "client (fade_loop ks s) = client s"
  "envelope (fade_loop ks s) = envelope s"
  "vowel_phase (fade_loop ks s) = vowel_phase s"
  "gain (fade_loop ks s) = gain s"
  "max_open (fade_loop ks s) = max_open s"
  "attack (fade_loop ks s) = attack s"
  "release (fade_loop ks s) = release s"
  "vowel_speed (fade_loop ks s) = vowel_speed s"
  "frame_count (fade_loop ks s) = frame_count s"
  by (induction ks arbitrary: s; simp add: Let_def send_fields)+

lemma fade_loop_upt:
  assumes "client s" "prev_shapes s = fade_frame p n"
  shows "wire (fade_loop [Suc n..<m] s)
           = wire s @ concat (map (\<lambda>k. encode_frame (fade_frame p k)) [Suc n..<m])
         \<and> prev_shapes (fade_loop [Suc n..<m] s) = fade_frame p (if m \<le> Suc n then n else m - 1)"
  using assms
proof (induction "m - Suc n" arbitrary: n s)
  case 0
  then show ?case by simp
next
  case (Suc d)
  then have lt: "Suc n < m" by simp
  let ?q = "\<lambda>v. prev_shapes s v * (1 - (real (Suc n) + 1) / 8)"
  let ?s1 = "send_blend_shapes ?q (s\<lparr>prev_shapes := ?q\<rparr>)"
  have q: "?q = fade_frame p (Suc n)" using Suc.prems(2) by (simp add: fun_eq_iff)
  have up: "[Suc n..<m] = Suc n # [Suc (Suc n)..<m]" using lt by (simp add: upt_rec)
  have step: "fade_loop [Suc n..<m] s = fade_loop [Suc (Suc n)..<m] ?s1"
    by (simp only: up fade_loop.simps Let_def)
  have c1: "client ?s1" using Suc.prems(1) by (simp add: send_fields)
  have p1: "prev_shapes ?s1 = fade_frame p (Suc n)" using q by (simp add: send_fields)
  have w1: "wire ?s1 = wire s @ encode_frame (fade_frame p (Suc n))"
    using Suc.prems(1) q by (simp add: send_wire)
  have d: "d = m - Suc (Suc n)" using Suc.hyps(2) by simp
  from Suc.hyps(1) [OF d c1 p1]
  have IH: "wire (fade_loop [Suc (Suc n)..<m] ?s1)
              = wire ?s1 @ concat (map (\<lambda>k. encode_frame (fade_frame p k)) [Suc (Suc n)..<m])"
    "prev_shapes (fade_loop [Suc (Suc n)..<m] ?s1)
       = fade_frame p (if m \<le> Suc (Suc n) then Suc n else m - 1)"
    by simp_all
  have "wire (fade_loop [Suc n..<m] s)
           = wire s @ concat (map (\<lambda>k. encode_frame (fade_frame p k)) [Suc n..<m])"
  proof -
    have "wire (fade_loop [Suc n..<m] s) = wire (fade_loop [Suc (Suc n)..<m] ?s1)"
      by (simp only: step)
    also have "\<dots> = wire ?s1 @ concat (map (\<lambda>k. encode_frame (fade_frame p k)) [Suc (Suc n)..<m])"
      by (rule IH(1))
    also have "\<dots> = wire s @ concat (map (\<lambda>k. encode_frame (fade_frame p k)) [Suc n..<m])"
      by (simp only: w1 up) simp
    finally show ?thesis .
  qed
  moreover have "prev_shapes (fade_loop [Suc n..<m] s) = fade_frame p (if m \<le> Suc n then n else m - 1)"
  proof -
    have "prev_shapes (fade_loop [Suc n..<m] s) = prev_shapes (fade_loop [Suc (Suc n)..<m] ?s1)"
      by (simp only: step)
    also have "\<dots> = fade_frame p (if m \<le> Suc (Suc n) then Suc n else m - 1)"
      by (rule IH(2))
    also have "\<dots> = fade_frame p (if m \<le> Suc n then n else m - 1)"
      using lt by (auto simp: le_Suc_eq)
    finally show ?thesis .
  qed
  ultimately show ?case by blast
qed

lemma fade_loop_8:
  assumes "client s"
  shows "wire (fade_loop [0..<8] s)
           = wire s @ concat (map (\<lambda>k. encode_frame (fade_frame (prev_shapes s) k)) [0..<8])
         \<and> prev_shapes (fade_loop [0..<8] s) = fade_frame (prev_shapes s) 7
         \<and> client (fade_loop [0..<8] s)"
proof -
  let ?p = "prev_shapes s"
  let ?q = "\<lambda>v. ?p v * (1 - (real 0 + 1) / 8)"
  let ?s1 = "send_blend_shapes ?q (s\<lparr>prev_shapes := ?q\<rparr>)"
  have up: "[0..<8] = 0 # [Suc 0..<8]" by (simp add: upt_rec)
  have step: "fade_loop [0..<8] s = fade_loop [Suc 0..<8] ?s1"
    by (simp only: up fade_loop.simps Let_def)
  have q: "?q = fade_frame ?p 0" by (simp add: fun_eq_iff)
  have c1: "client ?s1" using assms by (simp add: send_fields)
  have p1: "prev_shapes ?s1 = fade_frame ?p 0" using q by (simp add: send_fields)
  have w1: "wire ?s1 = wire s @ encode_frame (fade_frame ?p 0)"
    using assms q by (simp add: send_wire)
  note L = fade_loop_upt [OF c1 p1, of 8]
  have "wire (fade_loop [0..<8] s) = wire (fade_loop [Suc 0..<8] ?s1)"
    by (simp only: step)
  also have "\<dots> = wire ?s1 @ concat (map (\<lambda>k. encode_frame (fade_frame ?p k)) [Suc 0..<8])"
    using L by blast
  also have "\<dots> = wire s @ concat (map (\<lambda>k. encode_frame (fade_frame ?p k)) [0..<8])"
    by (simp only: w1 up) simp
  finally have a: "wire (fade_loop [0..<8] s)
           = wire s @ concat (map (\<lambda>k. encode_frame (fade_frame ?p k)) [0..<8])" .
  have "prev_shapes (fade_loop [0..<8] s) = prev_shapes (fade_loop [Suc 0..<8] ?s1)"
    by (simp only: step)
  also have "\<dots> = fade_frame ?p 7" using L by simp
  finally have b: "prev_shapes (fade_loop [0..<8] s) = fade_frame ?p 7" .
  from a b assms show ?thesis by simp
qed

lemma fade_frame_pos:
  "0 < p v \<Longrightarrow> k < 7 \<Longrightarrow> 0 < fade_frame p k v"
proof (induction k)
  case 0
  then show ?case by simp
next
  case (Suc k)
  then have "0 < fade_frame p k v" by simp
  moreover have "0 < 1 - (real (Suc k) + 1) / 8" using Suc.prems(2) by simp
  ultimately show ?case by simp
qed

lemma fade_frame_decreasing:
  assumes "0 < p v" "k < 7"
  shows "fade_frame p (Suc k) v < fade_frame p k v"
proof -
  have pos: "0 < fade_frame p k v" using assms by (rule fade_frame_pos)
  have "1 - (real (Suc k) + 1) / 8 < 1" by simp
  then have "fade_frame p k v * (1 - (real (Suc k) + 1) / 8) < fade_frame p k v * 1"
    using pos by (rule mult_strict_left_mono)
  then show ?thesis by simp
qed

lemma fade_frame_last: "fade_frame p 7 v = 0"
  by (simp add: eval_nat_numeral)

lemma fade_loop_no_client: "\<not> client s \<Longrightarrow> wire (fade_loop ks s) = wire s"
  by (induction ks arbitrary: s) (simp_all add: Let_def send_blend_shapes_def)

text \<open>
  C6. Starting the fade-out from a previous frame with weight 0.65 on shape A, the eight
  steps hand to the sender the eight frames of the fade, each the frame before it scaled
  by \<open>1 - (step + 1) / 8\<close>, followed by a final all-zero frame; with an OSC client these
  nine frames are what goes on the wire (without one the sender sends nothing). The
  weight of A drops strictly at every step, from 0.65 to the first frame and from each
  frame to the next; frame 7, the last of the fade, is already all-zero; afterwards the
  previous-shape state and the envelope are zero.
\<close>

theorem fade_close_sequence:
  assumes "prev_shapes s VA = 65/100"
  shows "wire (fade_close s)
           = (if client s
              then wire s @ concat (map (\<lambda>k. encode_frame (fade_frame (prev_shapes s) k)) [0..<8])
                     @ encode_frame (\<lambda>v. 0)
              else wire s)
         \<and> fade_frame (prev_shapes s) 0 VA < 65/100
         \<and> (\<forall>k<7. fade_frame (prev_shapes s) (Suc k) VA < fade_frame (prev_shapes s) k VA)
         \<and> (\<forall>v. fade_frame (prev_shapes s) 7 v = 0)
         \<and> prev_shapes (fade_close s) = (\<lambda>v. 0) \<and> envelope (fade_close s) = 0"
proof -
  have c1: "wire (fade_close s)
           = (if client s
              then wire s @ concat (map (\<lambda>k. encode_frame (fade_frame (prev_shapes s) k)) [0..<8])
                     @ encode_frame (\<lambda>v. 0)
              else wire s)"
  proof (cases "client s")
    case True
    note L = fade_loop_8 [OF True]
    have c: "client (fade_loop [0..<8] s)" using L by blast
    show ?thesis using L c True by (simp add: fade_close_def Let_def send_wire)
  next
    case False
    then have "wire (fade_loop [0..<8] s) = wire s" by (rule fade_loop_no_client)
    then show ?thesis using False by (simp add: fade_close_def Let_def send_wire)
  qed
  have c2: "fade_frame (prev_shapes s) 0 VA < 65/100" using assms by simp
  have pos: "0 < prev_shapes s VA" using assms by simp
  have c3: "\<forall>k<7. fade_frame (prev_shapes s) (Suc k) VA < fade_frame (prev_shapes s) k VA"
    using fade_frame_decreasing [of "prev_shapes s" VA] pos by blast
  have c4: "\<forall>v. fade_frame (prev_shapes s) 7 v = 0" by (simp add: fade_frame_last)
  have c5: "prev_shapes (fade_close s) = (\<lambda>v. 0) \<and> envelope (fade_close s) = 0"
    by (simp add: fade_close_def Let_def)
  from c1 c2 c3 c4 c5 show ?thesis by blast
qed

text \<open>
  The weights of A on the wire when the fade starts from the default object with 0.65
  on A: eight strictly decreasing values ending in 0, then the 0 of the final frame.
\<close>

theorem fade_close_sequence_witness:
  "client (default_vmc\<lparr>prev_shapes := (prev_shapes default_vmc)(VA := 13/20)\<rparr>)
   \<and> prev_shapes (default_vmc\<lparr>prev_shapes := (prev_shapes default_vmc)(VA := 13/20)\<rparr>) VA = 65/100
   \<and> weights_sent VA
        (wire (fade_close (default_vmc\<lparr>prev_shapes := (prev_shapes default_vmc)(VA := 13/20)\<rparr>)))
       = [91/160, 273/640, 273/1024, 273/2048, 819/16384, 819/65536, 819/524288, 0, 0]
   \<and> length (wire (fade_close
                (default_vmc\<lparr>prev_shapes := (prev_shapes default_vmc)(VA := 13/20)\<rparr>))) = 54
   \<and> prev_shapes (fade_close
         (default_vmc\<lparr>prev_shapes := (prev_shapes default_vmc)(VA := 13/20)\<rparr>)) VA = 0
   \<and> envelope (fade_close
         (default_vmc\<lparr>prev_shapes := (prev_shapes default_vmc)(VA := 13/20)\<rparr>)) = 0"
proof -
  let ?s = "default_vmc\<lparr>prev_shapes := (prev_shapes default_vmc)(VA := 13/20)\<rparr>"
  have h: "client ?s" "prev_shapes ?s VA = 65/100" by (simp_all add: default_fields)
  have up: "[0..<8] = [0, 1, 2, 3, 4, 5, 6, 7]" by (simp add: upt_rec)
  note T = fade_close_sequence [OF h(2)]
  from T h(1) have w: "wire (fade_close ?s)
      = wire ?s @ concat (map (\<lambda>k. encode_frame (fade_frame (prev_shapes ?s) k)) [0..<8])
               @ encode_frame (\<lambda>v. 0)" by simp
  have w0: "wire ?s = []" by (simp add: default_fields)
  have ws: "weights_sent VA (wire (fade_close ?s))
       = [91/160, 273/640, 273/1024, 273/2048, 819/16384, 819/65536, 819/524288, 0, 0]"
    unfolding w w0 up
    by (simp add: encode_frame_def VOWELS_def eval_nat_numeral default_fields)
  have len: "length (wire (fade_close ?s)) = 54"
    unfolding w w0 up by (simp add: encode_frame_def VOWELS_def)
  from T have "prev_shapes (fade_close ?s) = (\<lambda>v. 0)" "envelope (fade_close ?s) = 0"
    by blast+
  with h ws len show ?thesis by simp
qed

section \<open>Rise and decay under a loudness step\<close>










section \<open>The queue: one session at a time, in arrival order, whatever fails\<close>












lemma close_mouth_fields:
  "prev_shapes (close_mouth s) = (\<lambda>v. 0)" "envelope (close_mouth s) = 0"
  "wire (close_mouth s) = (if client s then wire s @ encode_frame (\<lambda>v. 0) else wire s)"
  by (simp_all add: close_mouth_def send_wire)




text \<open>
  Between items the mouth is closed: every way in which the call for an item comes back
  either leaves the lip-sync object as it was or ends in \<open>_fade_close\<close> or \<open>close_mouth\<close>.
\<close>

lemma play_mouth_closed:
  assumes "play_audio_with_vmc l a r = Some (r', ok)" "mouth_closed (vmc r)"
  shows "mouth_closed (vmc r')"
  using assms
  by (auto simp: play_audio_with_vmc_def try_body_def mouth_closed_def close_mouth_fields
      fade_close_def Let_def split: option.splits if_splits sum.splits prod.splits)

lemma server_step_mouth_closed:
  assumes "server_step l x s = Some s'" "mouth_closed (vmc (router s))"
  shows "mouth_closed (vmc (router s'))"
proof (cases x)
  case (WorkerDone a)
  with assms show ?thesis
    by (auto split: option.splits dest: play_mouth_closed)
qed (use assms in \<open>auto split: option.splits list.splits if_splits\<close>)

lemma mouth_closed_between_items:
  assumes "run l ops s = Some s'" "mouth_closed (vmc (router s))"
  shows "mouth_closed (vmc (router s'))"
  using assms
proof (induction ops arbitrary: s)
  case Nil
  then show ?case by simp
next
  case (Cons x xs)
  then show ?case
    by (auto split: option.splits dest: server_step_mouth_closed)
qed

end
